theory Spec2Isabelle
  imports Main "HOL-Library.Word" "HOL-Library.AList" "HOL-Library.Multiset"
begin

section \<open>The librato outlet of l2met (src/librato/main.go)\<close>

text \<open>
  The outlet is a pipeline of goroutines joined by channels: fetch, convert, batch, post.
  Each stage is embedded as a function from what it receives to what it sends and logs.
  A stage that loops forever over a channel is embedded by its reaction to one received item,
  or, where it keeps state between items (the batcher), by a run over a finite prefix of the
  events it receives.
\<close>

subsection \<open>Data\<close>

text \<open>
  \<^verbatim>\<open>type LM struct\<close>: the librato metric. \<open>Time\<close> is an \<open>int64\<close>.
  The values sent through the channels are \<open>*LM\<close>; every one of them is created by
  \<open>&LM{...}\<close> in \<open>convert\<close> and never written afterwards, so a metric is modelled by
  its value.
\<close>

record LM =
  Name :: string
  Time :: "64 word"
  Val :: string
  Source :: string
  Token :: string

text \<open>
  A Go slice \<open>[]*LM\<close>: its elements (\<open>len\<close> is their number) and the capacity of its
  backing array.
\<close>

record slice =
  items :: "LM list"
  cap :: nat

definition len :: "slice \<Rightarrow> nat" where
  "len s = length (items s)"

text \<open>The zero value of a slice type, which a map lookup yields for an absent key.\<close>

definition nil_slice :: slice where
  "nil_slice = \<lparr>items = [], cap = 0\<rparr>"

text \<open>
  \<open>append(s, x)\<close>: within the capacity the backing array is kept; beyond it the runtime
  allocates a larger one, of a capacity of its own choice, here \<open>grow\<close> of the length needed.
\<close>

definition append_slice :: "(nat \<Rightarrow> nat) \<Rightarrow> slice \<Rightarrow> LM \<Rightarrow> slice" where
  "append_slice grow s x =
     (if len s < cap s then s\<lparr>items := items s @ [x]\<rparr>
      else \<lparr>items = items s @ [x], cap = grow (len s + 1)\<rparr>)"

subsection \<open>batch\<close>

text \<open>
  \<open>batchMap\<close> is a \<open>map[string][]*LM\<close>, modelled as an association list with one entry
  for each key. Go leaves the order of \<open>range\<close> over a map open; the model visits the entries
  in the order of the list, and no theorem below depends on that order.
\<close>

type_synonym batchMap = "(string \<times> slice) list"

definition lookup :: "batchMap \<Rightarrow> string \<Rightarrow> slice" where
  "lookup m k = (case map_of m k of None \<Rightarrow> nil_slice | Some s \<Rightarrow> s)"

text \<open>
  What the batcher sends and measures: each slice pushed to the outbox is tagged with the
  branch of the \<open>select\<close> that pushed it (the ticker branch measures
  \<open>purge-time-batch\<close>, the other one \<open>purge-cap-batch\<close>).
\<close>

datatype trigger = TimeTrigger | CapTrigger

type_synonym flush = "trigger \<times> slice"

text \<open>The two channels of the \<open>select\<close>: a tick of the ticker, or a metric from \<open>lms\<close>.\<close>

datatype event = Tick | Recv LM

text \<open>
  The ticker branch, \<open>for k, v := range batchMap\<close>: the entries still to visit, and the
  map as deleted from so far.
\<close>

fun purge :: "(string \<times> slice) list \<Rightarrow> batchMap \<Rightarrow> batchMap \<times> flush list" where
  "purge [] m = (m, [])"
| "purge ((k, v) # kvs) m =
     (let (m', out) = purge kvs (AList.delete k m)
      in (m', (if len v > 0 then [(TimeTrigger, v)] else []) @ out))"

definition batch_tick :: "batchMap \<Rightarrow> batchMap \<times> flush list" where
  "batch_tick m = purge m m"

text \<open>
  The \<open>lms\<close> branch. First the metric is stored under its own token:
  \<open>make([]*LM, 1, 50)\<close> followed by the store at index 0 gives the slice of length 1 and
  capacity 50 that holds \<open>lm\<close>; for a key that is present the metric is appended.
\<close>

definition batch_insert :: "(nat \<Rightarrow> nat) \<Rightarrow> batchMap \<Rightarrow> LM \<Rightarrow> batchMap" where
  "batch_insert grow m lm =
     (case map_of m (Token lm) of
        None \<Rightarrow> AList.update (Token lm) \<lparr>items = [lm], cap = 50\<rparr> m
      | Some s \<Rightarrow> AList.update (Token lm) (append_slice grow s lm) m)"

text \<open>Then \<open>len(batchMap[lm.Token]) == cap(batchMap[lm.Token])\<close> decides the flush.\<close>

definition batch_recv :: "(nat \<Rightarrow> nat) \<Rightarrow> batchMap \<Rightarrow> LM \<Rightarrow> batchMap \<times> flush list" where
  "batch_recv grow m lm =
     (let m1 = batch_insert grow m lm
      in if len (lookup m1 (Token lm)) = cap (lookup m1 (Token lm))
         then (AList.delete (Token lm) m1, [(CapTrigger, lookup m1 (Token lm))])
         else (m1, []))"

fun batch_step :: "(nat \<Rightarrow> nat) \<Rightarrow> batchMap \<Rightarrow> event \<Rightarrow> batchMap \<times> flush list" where
  "batch_step grow m Tick = batch_tick m"
| "batch_step grow m (Recv lm) = batch_recv grow m lm"

text \<open>The loop of \<open>batch\<close> over a finite sequence of events, from a given map.\<close>

fun batch_run :: "(nat \<Rightarrow> nat) \<Rightarrow> batchMap \<Rightarrow> event list \<Rightarrow> batchMap \<times> flush list" where
  "batch_run grow m [] = (m, [])"
| "batch_run grow m (e # es) =
     (let (m1, out1) = batch_step grow m e;
          (m2, out2) = batch_run grow m1 es
      in (m2, out1 @ out2))"

text \<open>\<open>batch\<close> starts from \<open>make(map[string][]*LM)\<close>, the empty map.\<close>

definition batch :: "(nat \<Rightarrow> nat) \<Rightarrow> event list \<Rightarrow> batchMap \<times> flush list" where
  "batch grow evs = batch_run grow [] evs"

text \<open>The metrics received in a sequence of events, and the metrics of one account.\<close>

fun received :: "event list \<Rightarrow> LM list" where
  "received [] = []"
| "received (Tick # es) = received es"
| "received (Recv lm # es) = lm # received es"

definition of_token :: "string \<Rightarrow> LM list \<Rightarrow> LM list" where
  "of_token t xs = filter (\<lambda>x. Token x = t) xs"

definition flushed :: "flush list \<Rightarrow> LM list" where
  "flushed out = concat (map (\<lambda>f. items (snd f)) out)"

text \<open>
  The invariant of the map between two events: one entry for each key, each of capacity 50,
  holding between 1 and 49 metrics, all of the token that is its key.
\<close>

definition batch_inv :: "batchMap \<Rightarrow> bool" where
  "batch_inv m \<longleftrightarrow>
     distinct (map fst m) \<and>
     (\<forall>(k, s) \<in> set m. cap s = 50 \<and> 1 \<le> len s \<and> len s \<le> 49 \<and> (\<forall>x \<in> set (items s). Token x = k))"

text \<open>What holds of every slice pushed to the outbox, with its trigger.\<close>

definition flush_ok :: "flush \<Rightarrow> bool" where
  "flush_ok f \<longleftrightarrow>
     cap (snd f) = 50 \<and> 1 \<le> len (snd f) \<and> len (snd f) \<le> 50 \<and>
     (fst f = CapTrigger \<longleftrightarrow> len (snd f) = 50) \<and>
     (\<exists>t. \<forall>x \<in> set (items (snd f)). Token x = t)"

text \<open>Sample data: the doubling a runtime may choose for a grown slice, and two metrics.\<close>

definition grow_double :: "nat \<Rightarrow> nat" where
  "grow_double n = 2 * n"

definition lm_abc :: LM where
  "lm_abc = \<lparr>Name = ''web.mean'', Time = 1351000859, Val = ''3.00000'',
              Source = ''web.1'', Token = ''abc''\<rparr>"

definition lm_xyz :: LM where
  "lm_xyz = \<lparr>Name = ''db.count'', Time = 1351000859, Val = ''5'',
              Source = [], Token = ''xyz''\<rparr>"

text \<open>
  Sample runs: 50 metrics of one account, one of another, then 49 more of the first; and the
  slices these runs flush or hold.
\<close>

definition evs_cap :: "event list" where
  "evs_cap = replicate 50 (Recv lm_abc) @ [Recv lm_xyz] @ replicate 49 (Recv lm_abc)"

definition full_abc :: slice where
  "full_abc = \<lparr>items = replicate 50 lm_abc, cap = 50\<rparr>"

definition most_abc :: slice where
  "most_abc = \<lparr>items = replicate 49 lm_abc, cap = 50\<rparr>"


definition two_abc :: slice where
  "two_abc = \<lparr>items = [lm_abc, lm_abc], cap = 50\<rparr>"

definition one_xyz :: slice where
  "one_xyz = \<lparr>items = [lm_xyz], cap = 50\<rparr>"

subsection \<open>Time\<close>

text \<open>
  A \<open>time.Time\<close> is modelled by the instant it denotes: the nanoseconds since the Unix
  epoch, an unbounded integer, read in UTC (the location only changes how an instant is
  displayed, and by whole minutes). \<open>Unix\<close> is the \<open>int64\<close> of whole seconds since the
  epoch, rounded down.
\<close>

type_synonym time = int

definition Second :: int where
  "Second = 1000000000"


definition Unix :: "time \<Rightarrow> 64 word" where
  "Unix t = word_of_int (t div Second)"

subsection \<open>Buckets and the statistics they expose\<close>

text \<open>
  \<open>store.Bucket\<close> belongs to the package \<open>l2met/store\<close>. The fields that this program
  reads are kept (prefixed, since \<open>LM\<close> has fields of the same names); \<open>'f\<close> stands
  for \<open>float64\<close>.
\<close>

record 'f Bucket =
  b_Id :: int
  b_Name :: string
  b_Source :: string
  b_Token :: string
  b_Time :: time
  b_Vals :: "'f list"

text \<open>
  The methods of \<open>store.Bucket\<close> that \<open>convert\<close> calls, and
  \<open>strconv.FormatFloat\<close>, are parameters of the model. \<open>Get\<close> loads the bucket through
  the pointer: it yields an error, or the bucket as loaded. \<open>Count\<close> yields an \<open>int\<close>.
\<close>

record 'f store =
  Bucket_Get :: "'f Bucket \<Rightarrow> string + 'f Bucket"
  Bucket_Last :: "'f Bucket \<Rightarrow> 'f"
  Bucket_Min :: "'f Bucket \<Rightarrow> 'f"
  Bucket_Max :: "'f Bucket \<Rightarrow> 'f"
  Bucket_Mean :: "'f Bucket \<Rightarrow> 'f"
  Bucket_Median :: "'f Bucket \<Rightarrow> 'f"
  Bucket_P95 :: "'f Bucket \<Rightarrow> 'f"
  Bucket_P99 :: "'f Bucket \<Rightarrow> 'f"
  Bucket_Count :: "'f Bucket \<Rightarrow> int"
  Bucket_Sum :: "'f Bucket \<Rightarrow> 'f"
  FormatFloat :: "'f \<Rightarrow> char \<Rightarrow> int \<Rightarrow> int \<Rightarrow> string"

subsection \<open>ff, fi, ft\<close>

definition ff :: "'f store \<Rightarrow> 'f \<Rightarrow> string" where
  "ff st x = FormatFloat st x (CHR ''f'') 5 64"

text \<open>\<open>strconv.FormatInt(i, 10)\<close>: the decimal digits, after a minus sign for a negative.\<close>

definition digit_char :: "nat \<Rightarrow> char" where
  "digit_char d = char_of (48 + d)"

function digits10 :: "nat \<Rightarrow> string" where
  "digits10 n = (if n < 10 then [digit_char n] else digits10 (n div 10) @ [digit_char (n mod 10)])"
  by pat_completeness auto
termination
  by (relation "measure id") auto

declare digits10.simps [simp del]

definition FormatInt10 :: "int \<Rightarrow> string" where
  "FormatInt10 i = (if i < 0 then CHR ''-'' # digits10 (nat (- i)) else digits10 (nat i))"






definition fi :: "int \<Rightarrow> string" where
  "fi x = FormatInt10 x"

text \<open>\<open>t.Unix() + 59\<close>, in \<open>int64\<close>.\<close>

definition ft :: "time \<Rightarrow> 64 word" where
  "ft t = Unix t + 59"

subsection \<open>convert\<close>

text \<open>
  \<open>convert\<close> yields the tag of the line it prints and the metrics it sends to \<open>lms\<close>, in
  the order sent.
\<close>

definition convert :: "'f store \<Rightarrow> 'f Bucket \<Rightarrow> string \<times> LM list" where
  "convert st b =
     (case Bucket_Get st b of
        Inl err \<Rightarrow> (''error'', [])
      | Inr b' \<Rightarrow>
          if length (b_Vals b') = 0 then (''bucket-no-vals'', [])
          else (''librato.process.bucket'',
            [\<lparr>Name = b_Name b' @ ''.last'', Time = ft (b_Time b'), Val = ff st (Bucket_Last st b'),
                Source = b_Source b', Token = b_Token b'\<rparr>,
             \<lparr>Name = b_Name b' @ ''.min'', Time = ft (b_Time b'), Val = ff st (Bucket_Min st b'),
                Source = b_Source b', Token = b_Token b'\<rparr>,
             \<lparr>Name = b_Name b' @ ''.max'', Time = ft (b_Time b'), Val = ff st (Bucket_Max st b'),
                Source = b_Source b', Token = b_Token b'\<rparr>,
             \<lparr>Name = b_Name b' @ ''.mean'', Time = ft (b_Time b'), Val = ff st (Bucket_Mean st b'),
                Source = b_Source b', Token = b_Token b'\<rparr>,
             \<lparr>Name = b_Name b' @ ''.median'', Time = ft (b_Time b'), Val = ff st (Bucket_Median st b'),
                Source = b_Source b', Token = b_Token b'\<rparr>,
             \<lparr>Name = b_Name b' @ ''.perc95'', Time = ft (b_Time b'), Val = ff st (Bucket_P95 st b'),
                Source = b_Source b', Token = b_Token b'\<rparr>,
             \<lparr>Name = b_Name b' @ ''.perc99'', Time = ft (b_Time b'), Val = ff st (Bucket_P99 st b'),
                Source = b_Source b', Token = b_Token b'\<rparr>,
             \<lparr>Name = b_Name b' @ ''.count'', Time = ft (b_Time b'), Val = fi (Bucket_Count st b'),
                Source = b_Source b', Token = b_Token b'\<rparr>,
             \<lparr>Name = b_Name b' @ ''.sum'', Time = ft (b_Time b'), Val = ff st (Bucket_Sum st b'),
                Source = b_Source b', Token = b_Token b'\<rparr>]))"

text \<open>
  A sample store over integer samples: bucket 4 holds the samples 1 to 5 of the minute that
  starts at 2012-10-23 14:00:00 UTC, bucket 6 holds none, and any other bucket fails to
  load. Whole numbers are printed with five zeros after the point.
\<close>

definition sample_Get :: "int Bucket \<Rightarrow> string + int Bucket" where
  "sample_Get b =
     (if b_Id b = 4 then
        Inr (b\<lparr>b_Name := ''web'', b_Source := ''web.1'', b_Token := ''abc'',
               b_Time := 1351000800 * Second, b_Vals := [1, 2, 3, 4, 5]\<rparr>)
      else if b_Id b = 6 then
        Inr (b\<lparr>b_Name := ''idle'', b_Source := [], b_Token := ''abc'',
               b_Time := 1351000800 * Second, b_Vals := []\<rparr>)
      else Inl ''sql: no rows in result set'')"

definition sample_store :: "int store" where
  "sample_store =
     \<lparr>Bucket_Get = sample_Get,
      Bucket_Last = (\<lambda>b. last (b_Vals b)),
      Bucket_Min = (\<lambda>b. fold min (b_Vals b) (hd (b_Vals b))),
      Bucket_Max = (\<lambda>b. fold max (b_Vals b) (hd (b_Vals b))),
      Bucket_Mean = (\<lambda>b. sum_list (b_Vals b) div int (length (b_Vals b))),
      Bucket_Median = (\<lambda>b. sort (b_Vals b) ! (length (b_Vals b) div 2)),
      Bucket_P95 = (\<lambda>b. sort (b_Vals b) ! (length (b_Vals b) * 95 div 100)),
      Bucket_P99 = (\<lambda>b. sort (b_Vals b) ! (length (b_Vals b) * 99 div 100)),
      Bucket_Count = (\<lambda>b. int (length (b_Vals b))),
      Bucket_Sum = (\<lambda>b. sum_list (b_Vals b)),
      FormatFloat = (\<lambda>x fmt prec bits. FormatInt10 x @ ''.00000'')\<rparr>"

text \<open>
  \<open>&store.Bucket{Id: id}\<close>: every other field has its zero value; the zero
  \<open>time.Time\<close> is the first instant of the year 1.
\<close>

definition zero_Time :: time where
  "zero_Time = - 62135596800 * Second"

definition placeholder :: "int \<Rightarrow> 'f Bucket" where
  "placeholder i =
     \<lparr>b_Id = i, b_Name = [], b_Source = [], b_Token = [], b_Time = zero_Time, b_Vals = []\<rparr>"

subsection \<open>JSON\<close>

text \<open>
  \<open>type LP struct\<close>, the payload, and what \<open>json.Marshal\<close> makes of it. The encoder
  follows the field tags: a field is written under the name of its tag, or under its Go
  name when the tag names none, and a field tagged \<open>omitempty\<close> is left out when it is
  the empty string. The encoding of a string literal (quotes and escapes) depends on the
  release of the library and is the parameter \<open>q\<close>.
\<close>

record LP =
  Gauges :: "LM list"

datatype json = JString string | JNumber int | JArray "json list" | JObject "(string \<times> json) list"

definition omitempty :: "string \<Rightarrow> string \<Rightarrow> (string \<times> json) list" where
  "omitempty name v = (if v = [] then [] else [(name, JString v)])"

definition marshal_LM :: "LM \<Rightarrow> json" where
  "marshal_LM m =
     JObject ([(''name'', JString (Name m)),
               (''measure_time'', JNumber (sint (Time m))),
               (''value'', JString (Val m))]
              @ omitempty ''source'' (Source m)
              @ omitempty ''Token'' (Token m))"

definition marshal_LP :: "LP \<Rightarrow> json" where
  "marshal_LP p = JObject [(''gauges'', JArray (map marshal_LM (Gauges p)))]"

fun join :: "string list \<Rightarrow> string" where
  "join [] = []"
| "join [x] = x"
| "join (x # y # ys) = x @ '','' @ join (y # ys)"

fun render :: "(string \<Rightarrow> string) \<Rightarrow> json \<Rightarrow> string" where
  "render q (JString s) = q s"
| "render q (JNumber n) = FormatInt10 n"
| "render q (JArray xs) = ''['' @ join (map (render q) xs) @ '']''"
| "render q (JObject fs) = ''{'' @ join (map (\<lambda>(k, v). q k @ '':'' @ render q v) fs) @ ''}''"

text \<open>
  \<open>json.Marshal\<close> fails on values it cannot encode (channels, functions, cycles, failing
  marshalers); a struct of strings and integers is none of them.
\<close>

definition json_Marshal :: "(string \<Rightarrow> string) \<Rightarrow> LP \<Rightarrow> string + string" where
  "json_Marshal q p = Inr (render q (marshal_LP p))"



subsection \<open>post\<close>

text \<open>Go's \<open>/\<close> on integers truncates towards zero.\<close>

definition quo :: "int \<Rightarrow> int \<Rightarrow> int" where
  "quo a b = (if (a < 0) = (b < 0) then \<bar>a\<bar> div \<bar>b\<bar> else - (\<bar>a\<bar> div \<bar>b\<bar>))"

text \<open>
  What one pass through the retry loop meets: \<open>http.NewRequest\<close> fails, or
  \<open>http.DefaultClient.Do\<close> fails, or it returns a response with a status code.
\<close>

datatype attempt = RequestError | DoError | Response int

text \<open>
  The world a delivery worker acts in: \<open>store.Token.Get\<close> (of \<open>l2met/store\<close>), which
  fills in the user and the password of a token and whose result \<open>post\<close> does not inspect;
  the string encoding of \<open>encoding/json\<close>; and what the \<open>i\<close>-th pass of the retry loop
  meets.
\<close>

record net =
  Token_Get :: "string \<Rightarrow> string \<times> string"
  quote :: "string \<Rightarrow> string"
  Do :: "nat \<Rightarrow> attempt"

record request =
  Method :: string
  URL :: string
  Body :: string
  ContentType :: string
  BasicAuth :: "string \<times> string"

text \<open>
  What a worker does, in order: a line printed (by its \<open>at=\<close> tag), the credentials of a
  token fetched, a request handed to the HTTP client, a response body closed, a
  measurement emitted.
\<close>

datatype effect = Printf string | TokenGet string | HttpDo request | BodyClose | Measure string

definition libratoUrl :: string where
  "libratoUrl = ''https://metrics-api.librato.com/v1/metrics''"

definition maxRetry :: nat where
  "maxRetry = 5"

definition mkreq :: "string \<Rightarrow> string \<times> string \<Rightarrow> request" where
  "mkreq j token =
     \<lparr>Method = ''POST'', URL = libratoUrl, Body = j, ContentType = ''application/json'',
      BasicAuth = token\<rparr>"

text \<open>\<open>for i := 0; i <= maxRetry; i++\<close>, from pass \<open>i\<close> on.\<close>

function retry :: "net \<Rightarrow> string \<Rightarrow> string \<times> string \<Rightarrow> nat \<Rightarrow> effect list" where
  "retry nw j token i =
     (if i \<le> maxRetry then
        (case Do nw i of
           RequestError \<Rightarrow> Printf ''request-error'' # retry nw j token (i + 1)
         | DoError \<Rightarrow> HttpDo (mkreq j token) # Printf ''do-error'' # retry nw j token (i + 1)
         | Response status \<Rightarrow>
             HttpDo (mkreq j token) #
             (if quo status 100 = 2 then [BodyClose, Measure ''librato-http-post'']
              else BodyClose #
                   (if i = maxRetry then [Printf ''librato-status-error''] else []) @
                   retry nw j token (i + 1)))
      else [])"
  by pat_completeness auto
termination
  by (relation "measure (\<lambda>(nw, j, token, i). maxRetry + 1 - i)") auto

declare retry.simps [simp del]

text \<open>The body of \<open>for metrics := range outbox\<close>: what a worker does with one batch.\<close>

definition post_batch :: "net \<Rightarrow> LM list \<Rightarrow> effect list" where
  "post_batch nw metrics =
     (case metrics of
        [] \<Rightarrow> [Printf ''empty-metrics-error'']
      | sampleMetric # _ \<Rightarrow>
          TokenGet (Token sampleMetric) #
          (case json_Marshal (quote nw) \<lparr>Gauges = metrics\<rparr> of
             Inl err \<Rightarrow> [Printf ''json-marshal-error'']
           | Inr j \<Rightarrow>
               if length j = 0 then [Printf ''empty-body-error'']
               else Printf ''post-metric'' #
                    retry nw j (Token_Get nw (Token sampleMetric)) 0))"

text \<open>\<open>post\<close> ranges over the outbox.\<close>

definition post :: "net \<Rightarrow> LM list list \<Rightarrow> effect list" where
  "post nw outbox = concat (map (post_batch nw) outbox)"

text \<open>The requests handed to the HTTP client, in order.\<close>

fun requests :: "effect list \<Rightarrow> request list" where
  "requests [] = []"
| "requests (HttpDo r # es) = r # requests es"
| "requests (e # es) = requests es"

text \<open>A response is a success when its status is one of 200 to 299.\<close>

definition failed :: "attempt \<Rightarrow> bool" where
  "failed a \<longleftrightarrow> (case a of RequestError \<Rightarrow> False | DoError \<Rightarrow> True
                 | Response s \<Rightarrow> \<not> (200 \<le> s \<and> s \<le> 299))"

text \<open>Sample worlds: an endpoint that is never reached, one that answers 503, one that answers 200.\<close>

definition plain_quote :: "string \<Rightarrow> string" where
  "plain_quote s = CHR 0x22 # s @ [CHR 0x22]"

definition net_down :: net where
  "net_down = \<lparr>Token_Get = (\<lambda>t. (''user@example.com'', ''secret'')), quote = plain_quote,
               Do = (\<lambda>i. DoError)\<rparr>"

definition net_busy :: net where
  "net_busy = \<lparr>Token_Get = (\<lambda>t. (''user@example.com'', ''secret'')), quote = plain_quote,
               Do = (\<lambda>i. Response 503)\<rparr>"

definition creds0 :: "string \<times> string" where
  "creds0 = (''user@example.com'', ''secret'')"


subsection \<open>lockPartition\<close>

text \<open>
  \<open>sql.NullBool\<close>, as \<open>rows.Scan(&result)\<close> leaves it: the variable is declared anew
  for each row, and the error of \<open>Scan\<close> is not looked at, so a row that fails to scan
  leaves the zero value.
\<close>

record NullBool =
  Bool :: bool
  Valid :: bool

text \<open>What \<open>pg.Query\<close> returns: an error, or rows.\<close>

datatype 'r query = QueryError | Rows "'r list"

text \<open>\<open>for rows.Next()\<close>: whether the loop over the rows returns the partition.\<close>

fun rows_loop :: "NullBool list \<Rightarrow> bool" where
  "rows_loop [] = False"
| "rows_loop (result # rows) = (if Valid result \<and> Bool result then True else rows_loop rows)"

text \<open>
  \<open>for p := 0; p < maxPartitions; p++\<close>, from \<open>p\<close> on, where \<open>pg p\<close> is what the query
  \<open>select pg_try_advisory_lock(p)\<close> returns during this scan. The result is the partition
  returned, or \<open>None\<close> when the scan ends without one.
\<close>

function scan :: "(int \<Rightarrow> NullBool query) \<Rightarrow> int \<Rightarrow> int \<Rightarrow> int option" where
  "scan pg maxPartitions p =
     (if p < maxPartitions then
        (case pg p of
           QueryError \<Rightarrow> scan pg maxPartitions (p + 1)
         | Rows rows \<Rightarrow> if rows_loop rows then Some p else scan pg maxPartitions (p + 1))
      else None)"
  by pat_completeness auto
termination
  by (relation "measure (\<lambda>(pg, maxPartitions, p). nat (maxPartitions - p))") auto

declare scan.simps [simp del]

text \<open>
  What \<open>lockPartition\<close> does besides returning: it prints the line \<open>acquired-lock\<close> with
  the partition, and it sleeps.
\<close>

datatype lock_effect = Acquired int | Sleep nat

text \<open>
  The outer \<open>for\<close> has no exit but the \<open>return\<close>, so the function may run forever:
  \<open>None\<close> is not returning. \<open>pg n\<close> answers the queries of the \<open>n\<close>-th scan (counted
  from 0), and \<open>sofar\<close> is what has been done so far. The result is the pair
  \<open>(int, error)\<close> returned, where \<open>None\<close> is the \<open>nil\<close> error, and what was done.
\<close>

partial_function (option) lockPartition_loop ::
  "(nat \<Rightarrow> int \<Rightarrow> NullBool query) \<Rightarrow> int \<Rightarrow> nat \<Rightarrow> lock_effect list
     \<Rightarrow> ((int \<times> string option) \<times> lock_effect list) option" where
  "lockPartition_loop pg maxPartitions n sofar =
     (case scan (pg n) maxPartitions 0 of
        Some p \<Rightarrow> Some ((p, None), sofar @ [Acquired p])
      | None \<Rightarrow> lockPartition_loop pg maxPartitions (n + 1) (sofar @ [Sleep 10]))"

definition lockPartition ::
  "(nat \<Rightarrow> int \<Rightarrow> NullBool query) \<Rightarrow> int \<Rightarrow> ((int \<times> string option) \<times> lock_effect list) option" where
  "lockPartition pg maxPartitions = lockPartition_loop pg maxPartitions 0 []"

text \<open>A lock attempt succeeds when its query returns a row that is valid and true.\<close>

definition locked :: "NullBool query \<Rightarrow> bool" where
  "locked q = (case q of QueryError \<Rightarrow> False | Rows rows \<Rightarrow> rows_loop rows)"

text \<open>
  A sample database: during the first two scans every lock is held by someone else, and
  the query on partition 1 fails; from the third scan on, partition 2 is free.
\<close>

definition pg_sample :: "nat \<Rightarrow> int \<Rightarrow> NullBool query" where
  "pg_sample n p =
     (if p = 1 then QueryError
      else if 2 \<le> n \<and> p = 2 then Rows [\<lparr>Bool = True, Valid = True\<rparr>]
      else Rows [\<lparr>Bool = False, Valid = True\<rparr>])"

subsection \<open>scheduleFetch, fetch, scanBuckets\<close>





text \<open>
  Modelled from the spec: the bucket directory query of the storage collaborator (the
  database behind \<open>pg\<close>, which is not part of this program). The table \<open>buckets\<close> is a list of
  rows with an id and a time. Given a window, a shard modulus and a shard index, the
  statement
  \<^verbatim>\<open>select id from buckets where time >= $1 and time < $2 and MOD(id, $3) = $4 order by time desc\<close>
  returns the ids of the rows in the window whose id has the remainder asked for, by
  descending time; \<open>MOD\<close> is the remainder of the truncating division, and an error for the
  modulus 0. The database may also be out of reach, and then every query fails.
\<close>

record bucket_row =
  row_id :: int
  row_time :: time

datatype db = Unreachable | Table "bucket_row list"








section \<open>Properties\<close>

subsection \<open>batch: the map and what is flushed\<close>

lemma purge_fst: "fst (purge kvs m) = filter (\<lambda>p. fst p \<notin> fst ` set kvs) m"
proof (induction kvs arbitrary: m)
  case Nil
  then show ?case by simp
next
  case (Cons kv kvs)
  obtain k v where kv: "kv = (k, v)" by (cases kv)
  have "fst (purge (kv # kvs) m) = fst (purge kvs (AList.delete k m))"
    by (simp add: kv split: prod.splits)
  also have "\<dots> = filter (\<lambda>p. fst p \<notin> fst ` set kvs) (AList.delete k m)"
    by (rule Cons.IH)
  also have "\<dots> = filter (\<lambda>p. fst p \<notin> fst ` set (kv # kvs)) m"
    by (induction m) (auto simp: kv)
  finally show ?case .
qed

lemma purge_snd:
  "snd (purge kvs m) = map (\<lambda>v. (TimeTrigger, v)) (filter (\<lambda>v. len v > 0) (map snd kvs))"
  by (induction kvs arbitrary: m) (auto simp: case_prod_beta)

lemma batch_tick_fst: "fst (batch_tick m) = []"
  by (simp add: batch_tick_def purge_fst)

lemma batch_inv_map_of:
  "batch_inv m \<longleftrightarrow>
     distinct (map fst m) \<and>
     (\<forall>k s. map_of m k = Some s \<longrightarrow>
        cap s = 50 \<and> 1 \<le> len s \<and> len s \<le> 49 \<and> (\<forall>x \<in> set (items s). Token x = k))"
  unfolding batch_inv_def
  by (auto dest: map_of_SomeD) 

lemma batch_tick_snd:
  assumes "batch_inv m"
  shows "snd (batch_tick m) = map (\<lambda>v. (TimeTrigger, v)) (map snd m)"
proof -
  have "\<forall>v \<in> set (map snd m). len v > 0"
    using assms unfolding batch_inv_def by fastforce
  then have "filter (\<lambda>v. len v > 0) (map snd m) = map snd m"
    by (simp only: filter_True)
  then show ?thesis by (simp add: batch_tick_def purge_snd)
qed

lemma of_token_entries:
  assumes "distinct (map fst m)" "\<forall>(k, s) \<in> set m. \<forall>x \<in> set (items s). Token x = k"
  shows "of_token t (concat (map (\<lambda>p. items (snd p)) m)) = items (lookup m t)"
  using assms
proof (induction m)
  case Nil
  then show ?case by (simp add: of_token_def lookup_def nil_slice_def)
next
  case (Cons p m)
  obtain k s where p: "p = (k, s)" by (cases p)
  have hom: "\<forall>x \<in> set (items s). Token x = k" using Cons.prems(2) by (simp add: p)
  have IH: "of_token t (concat (map (\<lambda>p. items (snd p)) m)) = items (lookup m t)"
    using Cons by simp
  show ?case
  proof (cases "k = t")
    case True
    have "t \<notin> fst ` set m" using Cons.prems(1) True by (simp add: p)
    then have "map_of m t = None" by (simp add: map_of_eq_None_iff)
    then have "items (lookup m t) = []" by (simp add: lookup_def nil_slice_def)
    moreover have "of_token t (items s) = items s"
      using hom True by (simp add: of_token_def)
    ultimately show ?thesis using IH True
      by (simp add: p of_token_def lookup_def)
  next
    case False
    then have "of_token t (items s) = []"
      using hom by (auto simp: of_token_def filter_empty_conv)
    then show ?thesis using IH False
      by (simp add: p of_token_def lookup_def)
  qed
qed

lemma batch_insert_new:
  assumes "map_of m (Token lm) = None"
  shows "batch_insert grow m lm = AList.update (Token lm) \<lparr>items = [lm], cap = 50\<rparr> m"
  using assms by (simp add: batch_insert_def)

lemma batch_insert_old:
  assumes "map_of m (Token lm) = Some s" "cap s = 50" "len s \<le> 49"
  shows "batch_insert grow m lm = AList.update (Token lm) (s\<lparr>items := items s @ [lm]\<rparr>) m"
  using assms by (simp add: batch_insert_def append_slice_def)

lemma batch_insert_items:
  "items (lookup (batch_insert grow m lm) (Token lm)) = items (lookup m (Token lm)) @ [lm]"
  by (auto simp: batch_insert_def lookup_def update_conv' append_slice_def nil_slice_def
      split: option.splits)

lemma batch_insert_other:
  "k \<noteq> Token lm \<Longrightarrow> map_of (batch_insert grow m lm) k = map_of m k"
  by (auto simp: batch_insert_def update_conv' split: option.splits)

lemma delete_update_same: "AList.delete k (AList.update k v m) = AList.delete k m"
  by (induction m) auto

lemma batch_recv_new:
  assumes "map_of m (Token lm) = None"
  shows "batch_recv grow m lm = (AList.update (Token lm) \<lparr>items = [lm], cap = 50\<rparr> m, [])"
  using assms by (simp add: batch_recv_def batch_insert_new lookup_def update_conv' len_def)

lemma batch_recv_old:
  assumes "map_of m (Token lm) = Some s" "cap s = 50" "len s \<le> 49"
  shows "batch_recv grow m lm =
     (if len s = 49
      then (AList.delete (Token lm) m, [(CapTrigger, s\<lparr>items := items s @ [lm]\<rparr>)])
      else (AList.update (Token lm) (s\<lparr>items := items s @ [lm]\<rparr>) m, []))"
  using assms
  by (auto simp: batch_recv_def batch_insert_old delete_update_same lookup_def update_conv' len_def)

lemma batch_recv_step:
  assumes "batch_inv m" "batch_recv grow m lm = (m', out)"
  shows "batch_inv m' \<and>
    (out = [] \<or> (\<exists>s. out = [(CapTrigger, s)] \<and> len s = 50 \<and> map_of m' (Token lm) = None)) \<and>
    (\<forall>f \<in> set out. flush_ok f) \<and>
    (\<forall>t. of_token t (flushed out) @ items (lookup m' t) = items (lookup m t) @ of_token t [lm])"
proof -
  have inv: "distinct (map fst m)"
    "\<And>k s. map_of m k = Some s \<Longrightarrow>
        cap s = 50 \<and> 1 \<le> len s \<and> len s \<le> 49 \<and> (\<forall>x \<in> set (items s). Token x = k)"
    using assms(1) by (simp_all add: batch_inv_map_of)
  show ?thesis
  proof (cases "map_of m (Token lm)")
    case None
    then have r: "m' = AList.update (Token lm) \<lparr>items = [lm], cap = 50\<rparr> m" "out = []"
      using assms(2) by (simp_all add: batch_recv_new)
    have "batch_inv m'"
      using inv None by (auto simp: batch_inv_map_of r distinct_update update_conv' len_def)
    moreover have "\<forall>t. of_token t (flushed out) @ items (lookup m' t) = items (lookup m t) @ of_token t [lm]"
      using None by (auto simp: r flushed_def lookup_def update_conv' of_token_def nil_slice_def)
    ultimately show ?thesis by (simp add: r(2))
  next
    case (Some s)
    note s = inv(2)[OF Some]
    have rr: "batch_recv grow m lm =
     (if len s = 49
      then (AList.delete (Token lm) m, [(CapTrigger, s\<lparr>items := items s @ [lm]\<rparr>)])
      else (AList.update (Token lm) (s\<lparr>items := items s @ [lm]\<rparr>) m, []))"
      using Some s by (intro batch_recv_old) auto
    have "batch_inv m'"
      using inv s assms(2) unfolding rr
      by (auto simp: batch_inv_map_of distinct_update distinct_delete update_conv' delete_conv'
          len_def split: if_splits)
    moreover have "out = [] \<or> (\<exists>s. out = [(CapTrigger, s)] \<and> len s = 50 \<and> map_of m' (Token lm) = None)"
      using assms(2) unfolding rr by (auto simp: delete_conv' len_def split: if_splits)
    moreover have "\<forall>f \<in> set out. flush_ok f"
      using s assms(2) unfolding rr by (auto simp: flush_ok_def len_def split: if_splits)
    moreover have "\<forall>t. of_token t (flushed out) @ items (lookup m' t) = items (lookup m t) @ of_token t [lm]"
      using s Some assms(2) unfolding rr
      by (auto simp: flushed_def lookup_def update_conv' delete_conv' of_token_def nil_slice_def
          split: if_splits)
    ultimately show ?thesis by blast
  qed
qed

lemma batch_tick_step:
  assumes "batch_inv m" "batch_tick m = (m', out)"
  shows "m' = []"
    and "\<forall>f \<in> set out. flush_ok f"
    and "of_token t (flushed out) @ items (lookup m' t) = items (lookup m t)"
proof -
  have m': "m' = []" using assms(2) batch_tick_fst [of m] by simp
  have out: "out = map (\<lambda>v. (TimeTrigger, v)) (map snd m)"
    using assms batch_tick_snd [of m] by simp
  show "m' = []" by (fact m')
  show "\<forall>f \<in> set out. flush_ok f"
    using assms(1) unfolding out batch_inv_def flush_ok_def by fastforce
  have "flushed out = concat (map (\<lambda>p. items (snd p)) m)"
    by (simp add: out flushed_def comp_def)
  moreover have "of_token t (concat (map (\<lambda>p. items (snd p)) m)) = items (lookup m t)"
    using assms(1) unfolding batch_inv_def by (intro of_token_entries) auto
  ultimately show "of_token t (flushed out) @ items (lookup m' t) = items (lookup m t)"
    by (simp add: m' lookup_def nil_slice_def)
qed

lemma batch_inv_empty: "batch_inv []"
  by (simp add: batch_inv_def)

lemma of_token_append: "of_token t (xs @ ys) = of_token t xs @ of_token t ys"
  by (simp add: of_token_def)

lemma flushed_append: "flushed (xs @ ys) = flushed xs @ flushed ys"
  by (simp add: flushed_def)

lemma batch_run_inv:
  assumes "batch_inv m" "batch_run grow m evs = (m', out)"
  shows "batch_inv m' \<and> (\<forall>f \<in> set out. flush_ok f) \<and>
     (\<forall>t. of_token t (flushed out) @ items (lookup m' t) = items (lookup m t) @ of_token t (received evs))"
  using assms
proof (induction evs arbitrary: m m' out)
  case Nil
  then show ?case by (simp add: flushed_def of_token_def)
next
  case (Cons e es)
  obtain m1 out1 where st: "batch_step grow m e = (m1, out1)" by (cases "batch_step grow m e")
  obtain m2 out2 where rn: "batch_run grow m1 es = (m2, out2)" by (cases "batch_run grow m1 es")
  have res: "m' = m2" "out = out1 @ out2" using Cons.prems(2) st rn by simp_all
  have step: "batch_inv m1 \<and> (\<forall>f \<in> set out1. flush_ok f) \<and>
     (\<forall>t. of_token t (flushed out1) @ items (lookup m1 t) = items (lookup m t) @ of_token t (received [e]))"
  proof (cases e)
    case Tick
    then have bt: "batch_tick m = (m1, out1)" using st by simp
    show ?thesis
      using batch_tick_step [OF Cons.prems(1) bt] Tick by (simp add: batch_inv_empty of_token_def)
  next
    case (Recv lm)
    then have br: "batch_recv grow m lm = (m1, out1)" using st by simp
    show ?thesis
      using batch_recv_step [OF Cons.prems(1) br] Recv by simp
  qed
  have IH: "batch_inv m2 \<and> (\<forall>f \<in> set out2. flush_ok f) \<and>
     (\<forall>t. of_token t (flushed out2) @ items (lookup m2 t) = items (lookup m1 t) @ of_token t (received es))"
    using Cons.IH [of m1 m2 out2] step rn by simp
  have rcv: "received (e # es) = received [e] @ received es" by (cases e) simp_all
  have "of_token t (flushed out) @ items (lookup m' t) = items (lookup m t) @ of_token t (received (e # es))" for t
  proof -
    have "of_token t (flushed out) @ items (lookup m' t)
        = of_token t (flushed out1) @ (of_token t (flushed out2) @ items (lookup m2 t))"
      by (simp add: res flushed_append of_token_append)
    also have "\<dots> = of_token t (flushed out1) @ items (lookup m1 t) @ of_token t (received es)"
      using IH by simp
    also have "\<dots> = (items (lookup m t) @ of_token t (received [e])) @ of_token t (received es)"
      using step by simp
    finally show ?thesis by (simp add: rcv of_token_append)
  qed
  then show ?case using step IH by (auto simp: res)
qed

lemma batch_reach:
  assumes "batch grow evs = (m, out)"
  shows "batch_inv m" and "\<forall>f \<in> set out. flush_ok f"
    and "of_token t (flushed out) @ items (lookup m t) = of_token t (received evs)"
  using batch_run_inv [OF batch_inv_empty, of grow evs m out] assms
  by (simp_all add: batch_def lookup_def nil_slice_def)

lemma batch_recv_cases:
  assumes "batch_inv m" "batch_recv grow m lm = (m', out)"
  shows "(len (lookup m (Token lm)) + 1 = 50 \<longrightarrow>
            out = [(CapTrigger, lookup (batch_insert grow m lm) (Token lm))] \<and>
            map_of m' (Token lm) = None) \<and>
         (len (lookup m (Token lm)) + 1 \<noteq> 50 \<longrightarrow> out = [] \<and> m' = batch_insert grow m lm)"
proof -
  have inv: "\<And>k s. map_of m k = Some s \<Longrightarrow> cap s = 50 \<and> 1 \<le> len s \<and> len s \<le> 49"
    using assms(1) by (simp add: batch_inv_map_of)
  show ?thesis
  proof (cases "map_of m (Token lm)")
    case None
    then show ?thesis
      using assms(2) by (simp add: batch_recv_new batch_insert_new lookup_def nil_slice_def len_def)
  next
    case (Some s)
    have rr: "batch_recv grow m lm =
     (if len s = 49
      then (AList.delete (Token lm) m, [(CapTrigger, s\<lparr>items := items s @ [lm]\<rparr>)])
      else (AList.update (Token lm) (s\<lparr>items := items s @ [lm]\<rparr>) m, []))"
      using Some inv [OF Some] by (intro batch_recv_old) auto
    have bi: "batch_insert grow m lm = AList.update (Token lm) (s\<lparr>items := items s @ [lm]\<rparr>) m"
      using Some inv [OF Some] by (intro batch_insert_old) auto
    show ?thesis
      using assms(2) Some unfolding rr bi
      by (auto simp: lookup_def update_conv' delete_conv' split: if_splits)
  qed
qed


text \<open>
  C1. Every slice that \<open>batch\<close> pushes to the outbox holds between 1 and 50 metrics, and
  it is pushed by the capacity branch exactly when it holds 50. Every metric of an account is
  flushed exactly once and in the order received: the metrics flushed so far, followed by
  those still held under the token, are the metrics received for it. In every map that is
  reached, a received metric that brings its batch to 50 has this batch pushed at once and
  its key deleted, any other metric pushes nothing, and a tick pushes every batch held once,
  in some order, and leaves the empty map.
\<close>

theorem batch_flush_exactly_once:
  assumes "batch grow evs = (m, out)"
  shows "(\<forall>(tr, s) \<in> set out. 1 \<le> len s \<and> len s \<le> 50 \<and> (tr = CapTrigger \<longleftrightarrow> len s = 50)) \<and>
         (\<forall>t. of_token t (flushed out) @ items (lookup m t) = of_token t (received evs)) \<and>
         (\<forall>lm m' out'. batch_recv grow m lm = (m', out') \<longrightarrow>
            (len (lookup m (Token lm)) + 1 = 50 \<longrightarrow>
               out' = [(CapTrigger, lookup (batch_insert grow m lm) (Token lm))] \<and>
               map_of m' (Token lm) = None) \<and>
            (len (lookup m (Token lm)) + 1 \<noteq> 50 \<longrightarrow> out' = [] \<and> m' = batch_insert grow m lm)) \<and>
         fst (batch_tick m) = [] \<and>
         mset (snd (batch_tick m)) = mset (map (\<lambda>p. (TimeTrigger, snd p)) m)"
proof -
  note r = batch_reach [OF assms]
  have "\<forall>(tr, s) \<in> set out. 1 \<le> len s \<and> len s \<le> 50 \<and> (tr = CapTrigger \<longleftrightarrow> len s = 50)"
    using r(2) by (auto simp: flush_ok_def)
  moreover have "mset (snd (batch_tick m)) = mset (map (\<lambda>p. (TimeTrigger, snd p)) m)"
    using batch_tick_snd [OF r(1)] by (simp add: comp_def)
  ultimately show ?thesis
    using r(3) batch_recv_cases [OF r(1)] batch_tick_fst [of m] by blast
qed

theorem batch_flush_exactly_once_witness:
  "batch grow_double evs_cap = ([(''xyz'', one_xyz), (''abc'', most_abc)], [(CapTrigger, full_abc)]) \<and>
   len full_abc = 50 \<and>
   of_token ''abc'' (flushed [(CapTrigger, full_abc)]) @ items most_abc
     = of_token ''abc'' (received evs_cap) \<and>
   batch_recv grow_double [(''xyz'', one_xyz), (''abc'', most_abc)] lm_abc
     = ([(''xyz'', one_xyz)], [(CapTrigger, full_abc)]) \<and>
   fst (batch_tick [(''xyz'', one_xyz), (''abc'', most_abc)]) = [] \<and>
   mset (snd (batch_tick [(''xyz'', one_xyz), (''abc'', most_abc)]))
     = mset [(TimeTrigger, one_xyz), (TimeTrigger, most_abc)]"
proof -
  let ?m = "[(''xyz'', one_xyz), (''abc'', most_abc)]"
  have run: "batch grow_double evs_cap = (?m, [(CapTrigger, full_abc)])"
    by code_simp
  have recv: "batch_recv grow_double ?m lm_abc = ([(''xyz'', one_xyz)], [(CapTrigger, full_abc)])"
    by code_simp
  have held: "items (lookup ?m ''abc'') = items most_abc"
    by (simp add: lookup_def)
  note t = batch_flush_exactly_once [OF run]
  have "case (CapTrigger, full_abc) of
          (tr, s) \<Rightarrow> 1 \<le> len s \<and> len s \<le> 50 \<and> (tr = CapTrigger \<longleftrightarrow> len s = 50)"
    by (rule bspec [OF t [THEN conjunct1]]) (rule list.set_intros(1))
  then have full: "len full_abc = 50"
    by (simp only: prod.case simp_thms)
  have cons: "of_token ''abc'' (flushed [(CapTrigger, full_abc)]) @ items most_abc
     = of_token ''abc'' (received evs_cap)"
    using t [THEN conjunct2, THEN conjunct1, THEN spec, of "''abc''"] by (simp only: held)
  have emptied: "fst (batch_tick ?m) = []"
    by (rule t [THEN conjunct2, THEN conjunct2, THEN conjunct2, THEN conjunct1])
  have "mset (snd (batch_tick ?m)) = mset (map (\<lambda>p. (TimeTrigger, snd p)) ?m)"
    by (rule t [THEN conjunct2, THEN conjunct2, THEN conjunct2, THEN conjunct2])
  then have tick: "mset (snd (batch_tick ?m)) = mset [(TimeTrigger, one_xyz), (TimeTrigger, most_abc)]"
    by (simp only: list.map snd_conv)
  show ?thesis
    by (rule conjI [OF run conjI [OF full conjI [OF cons conjI [OF recv conjI [OF emptied tick]]]]])
qed

text \<open>
  C2. All the metrics of a slice pushed to the outbox carry the same token. Every batch held
  in the map holds only metrics whose token is its key, and a received metric is appended
  to the batch under its own token while the other entries are left as they are.
\<close>

theorem batch_homogeneous:
  assumes "batch grow evs = (m, out)"
  shows "(\<forall>(tr, s) \<in> set out. \<forall>x \<in> set (items s). \<forall>y \<in> set (items s). Token x = Token y) \<and>
         (\<forall>(k, s) \<in> set m. \<forall>x \<in> set (items s). Token x = k) \<and>
         (\<forall>lm. items (lookup (batch_insert grow m lm) (Token lm)) = items (lookup m (Token lm)) @ [lm] \<and>
            (\<forall>k. k \<noteq> Token lm \<longrightarrow> map_of (batch_insert grow m lm) k = map_of m k))"
proof -
  note r = batch_reach [OF assms]
  have "\<forall>(tr, s) \<in> set out. \<forall>x \<in> set (items s). \<forall>y \<in> set (items s). Token x = Token y"
    using r(2) by (fastforce simp: flush_ok_def)
  moreover have "\<forall>(k, s) \<in> set m. \<forall>x \<in> set (items s). Token x = k"
    using r(1) unfolding batch_inv_def by fastforce
  ultimately show ?thesis
    by (simp add: batch_insert_items batch_insert_other)
qed

theorem batch_homogeneous_witness:
  "batch grow_double [Recv lm_abc, Recv lm_xyz, Recv lm_abc, Tick, Recv lm_xyz]
     = ([(''xyz'', one_xyz)], [(TimeTrigger, two_abc), (TimeTrigger, one_xyz)]) \<and>
   list_all (\<lambda>x. list_all (\<lambda>y. Token x = Token y) (items two_abc)) (items two_abc) \<and>
   list_all (\<lambda>x. Token x = ''xyz'') (items one_xyz) \<and>
   items (lookup (batch_insert grow_double [(''xyz'', one_xyz)] lm_xyz) (Token lm_xyz))
     = items (lookup [(''xyz'', one_xyz)] (Token lm_xyz)) @ [lm_xyz]"
proof -
  have run: "batch grow_double [Recv lm_abc, Recv lm_xyz, Recv lm_abc, Tick, Recv lm_xyz]
     = ([(''xyz'', one_xyz)], [(TimeTrigger, two_abc), (TimeTrigger, one_xyz)])"
    by code_simp
  note t = batch_homogeneous [OF run]
  have "case (TimeTrigger, two_abc) of
          (tr, s) \<Rightarrow> \<forall>x \<in> set (items s). \<forall>y \<in> set (items s). Token x = Token y"
    by (rule bspec [OF t [THEN conjunct1]]) (rule list.set_intros(1))
  then have out: "list_all (\<lambda>x. list_all (\<lambda>y. Token x = Token y) (items two_abc)) (items two_abc)"
    by (simp only: prod.case list_all_iff)
  have "case (''xyz'', one_xyz) of (k, s) \<Rightarrow> \<forall>x \<in> set (items s). Token x = k"
    by (rule bspec [OF t [THEN conjunct2, THEN conjunct1]]) (rule list.set_intros(1))
  then have held: "list_all (\<lambda>x. Token x = ''xyz'') (items one_xyz)"
    by (simp only: prod.case list_all_iff)
  have ins: "items (lookup (batch_insert grow_double [(''xyz'', one_xyz)] lm_xyz) (Token lm_xyz))
     = items (lookup [(''xyz'', one_xyz)] (Token lm_xyz)) @ [lm_xyz]"
    by (rule t [THEN conjunct2, THEN conjunct2, THEN spec, THEN conjunct1])
  show ?thesis
    by (rule conjI [OF run conjI [OF out conjI [OF held ins]]])
qed



subsection \<open>convert: nine metrics for a bucket with samples\<close>

lemma convert_Inl: "Bucket_Get st b = Inl e \<Longrightarrow> convert st b = (''error'', [])"
  by (simp add: convert_def)

lemma convert_no_vals:
  "Bucket_Get st b = Inr b' \<Longrightarrow> b_Vals b' = [] \<Longrightarrow> convert st b = (''bucket-no-vals'', [])"
  by (simp add: convert_def)

lemma convert_names:
  assumes "Bucket_Get st b = Inr b'" "b_Vals b' \<noteq> []"
  shows "map Name (snd (convert st b)) =
     map (\<lambda>s. b_Name b' @ s)
       [''.last'', ''.min'', ''.max'', ''.mean'', ''.median'', ''.perc95'', ''.perc99'',
        ''.count'', ''.sum'']"
  using assms by (simp add: convert_def)

lemma convert_length:
  assumes "Bucket_Get st b = Inr b'" "b_Vals b' \<noteq> []"
  shows "length (snd (convert st b)) = 9"
  using assms by (simp add: convert_def)

lemma convert_Time:
  assumes "Bucket_Get st b = Inr b'" "lm \<in> set (snd (convert st b))"
  shows "Time lm = ft (b_Time b')"
proof (cases "b_Vals b' = []")
  case True
  then show ?thesis using assms by (simp add: convert_no_vals)
next
  case False
  then have "\<forall>x \<in> set (snd (convert st b)). Time x = ft (b_Time b')"
    using assms(1) by (simp add: convert_def)
  then show ?thesis using assms(2) by blast
qed

lemma sint_word_of_int_64:
  assumes "- (2 ^ 63) \<le> k" "k < 2 ^ 63"
  shows "sint (word_of_int k :: 64 word) = k"
proof -
  have "sint (word_of_int k :: 64 word) = signed_take_bit 63 k"
    by (simp add: sint_sbintrunc')
  then show ?thesis using assms by (simp add: signed_take_bit_int_eq_self)
qed

lemma ft_sint:
  assumes "- (2 ^ 63) \<le> t div Second" "t div Second + 59 < 2 ^ 63"
  shows "sint (ft t) = t div Second + 59"
proof -
  have e: "ft t = word_of_int (t div Second + 59)"
    by (simp add: ft_def Unix_def)
  have "- (2 ^ 63) \<le> t div Second + 59"
    using assms(1) by linarith
  then show ?thesis
    unfolding e using assms(2) by (rule sint_word_of_int_64)
qed









text \<open>
  C3. A bucket that loads with at least one sample yields exactly nine metrics, named after
  the bucket with the suffixes .last, .min, .max, .mean, .median, .perc95, .perc99, .count
  and .sum, sent in this order. A bucket that fails to load, or that loads with no sample,
  yields no metric.
\<close>

theorem convert_nine_records:
  "(\<forall>b'. Bucket_Get st b = Inr b' \<and> b_Vals b' \<noteq> [] \<longrightarrow>
      length (snd (convert st b)) = 9 \<and>
      map Name (snd (convert st b)) =
        map (\<lambda>s. b_Name b' @ s)
          [''.last'', ''.min'', ''.max'', ''.mean'', ''.median'', ''.perc95'', ''.perc99'',
           ''.count'', ''.sum'']) \<and>
   (\<forall>e. Bucket_Get st b = Inl e \<longrightarrow> snd (convert st b) = []) \<and>
   (\<forall>b'. Bucket_Get st b = Inr b' \<and> b_Vals b' = [] \<longrightarrow> snd (convert st b) = [])"
  by (simp add: convert_Inl convert_no_vals convert_names convert_length)

theorem convert_nine_records_witness:
  "length (snd (convert sample_store (placeholder 4))) = 9 \<and>
   map Name (snd (convert sample_store (placeholder 4))) =
     [''web.last'', ''web.min'', ''web.max'', ''web.mean'', ''web.median'', ''web.perc95'',
      ''web.perc99'', ''web.count'', ''web.sum''] \<and>
   snd (convert sample_store (placeholder 5)) = [] \<and>
   snd (convert sample_store (placeholder 6)) = []"
proof -
  define b4 :: "int Bucket" where
    "b4 = \<lparr>b_Id = 4, b_Name = ''web'', b_Source = ''web.1'', b_Token = ''abc'',
           b_Time = 1351000800 * Second, b_Vals = [1, 2, 3, 4, 5]\<rparr>"
  define b6 :: "int Bucket" where
    "b6 = \<lparr>b_Id = 6, b_Name = ''idle'', b_Source = [], b_Token = ''abc'',
           b_Time = 1351000800 * Second, b_Vals = []\<rparr>"
  have g4: "Bucket_Get sample_store (placeholder 4) = Inr b4 \<and> b_Vals b4 \<noteq> []"
    by (simp add: sample_store_def sample_Get_def placeholder_def b4_def)
  have g5: "Bucket_Get sample_store (placeholder 5) = Inl ''sql: no rows in result set''"
    by (simp add: sample_store_def sample_Get_def placeholder_def)
  have g6: "Bucket_Get sample_store (placeholder 6) = Inr b6 \<and> b_Vals b6 = []"
    by (simp add: sample_store_def sample_Get_def placeholder_def b6_def)
  note t4 = convert_nine_records [of sample_store "placeholder 4", THEN conjunct1, THEN spec, THEN mp, OF g4]
  note t5 = convert_nine_records [of sample_store "placeholder 5", THEN conjunct2, THEN conjunct1, THEN spec, THEN mp, OF g5]
  note t6 = convert_nine_records [of sample_store "placeholder 6", THEN conjunct2, THEN conjunct2, THEN spec, THEN mp, OF g6]
  have n4: "map Name (snd (convert sample_store (placeholder 4))) =
     [''web.last'', ''web.min'', ''web.max'', ''web.mean'', ''web.median'', ''web.perc95'',
      ''web.perc99'', ''web.count'', ''web.sum'']"
    using t4 [THEN conjunct2] by (simp add: b4_def)
  show ?thesis
    by (rule conjI [OF t4 [THEN conjunct1] conjI [OF n4 conjI [OF t5 t6]]])
qed

text \<open>
  C4. Every metric that \<open>convert\<close> sends for a bucket carries as its time the Unix seconds
  of the start of the bucket's window plus 59, in the arithmetic of \<open>int64\<close>; read as an
  integer this is the sum itself whenever the sum is an \<open>int64\<close>.
\<close>

theorem convert_measure_time:
  assumes "Bucket_Get st b = Inr b'" "lm \<in> set (snd (convert st b))"
  shows "Time lm = Unix (b_Time b') + 59 \<and>
         (- (2 ^ 63) \<le> b_Time b' div Second \<and> b_Time b' div Second + 59 < 2 ^ 63 \<longrightarrow>
            sint (Time lm) = b_Time b' div Second + 59)"
proof -
  have "Time lm = ft (b_Time b')"
    using assms by (rule convert_Time)
  then show ?thesis
    by (simp add: ft_sint) (simp add: ft_def)
qed

theorem convert_measure_time_witness:
  "length (snd (convert sample_store (placeholder 4))) = 9 \<and>
   list_all (\<lambda>lm. Time lm = Unix (1351000800 * Second) + 59 \<and> sint (Time lm) = 1351000859)
     (snd (convert sample_store (placeholder 4)))"
proof -
  define b4 :: "int Bucket" where
    "b4 = \<lparr>b_Id = 4, b_Name = ''web'', b_Source = ''web.1'', b_Token = ''abc'',
           b_Time = 1351000800 * Second, b_Vals = [1, 2, 3, 4, 5]\<rparr>"
  have g4: "Bucket_Get sample_store (placeholder 4) = Inr b4"
    by (simp add: sample_store_def sample_Get_def placeholder_def b4_def)
  have rng: "- (2 ^ 63) \<le> b_Time b4 div Second \<and> b_Time b4 div Second + 59 < 2 ^ 63"
    by (simp add: b4_def Second_def)
  have "Time lm = Unix (1351000800 * Second) + 59 \<and> sint (Time lm) = 1351000859"
    if "lm \<in> set (snd (convert sample_store (placeholder 4)))" for lm
  proof -
    note t = convert_measure_time [OF g4 that]
    have "sint (Time lm) = b_Time b4 div Second + 59"
      by (rule t [THEN conjunct2, THEN mp, OF rng])
    then have "sint (Time lm) = 1351000859"
      by (simp add: b4_def Second_def)
    moreover have "Time lm = Unix (1351000800 * Second) + 59"
      using t [THEN conjunct1] by (simp add: b4_def)
    ultimately show ?thesis by simp
  qed
  then have all: "list_all (\<lambda>lm. Time lm = Unix (1351000800 * Second) + 59 \<and> sint (Time lm) = 1351000859)
     (snd (convert sample_store (placeholder 4)))"
    by (simp only: list_all_iff) blast
  have "b_Vals b4 \<noteq> []"
    by (simp add: b4_def)
  with g4 have nine: "length (snd (convert sample_store (placeholder 4))) = 9"
    by (rule convert_length)
  show ?thesis by (rule conjI [OF nine all])
qed

subsection \<open>post: the retry loop\<close>

lemma quo_100_eq_2: "quo s 100 = 2 \<longleftrightarrow> 200 \<le> s \<and> s \<le> 299"
  unfolding quo_def by (cases "s < 0") (auto simp: abs_if)

lemma retry_past: "maxRetry < i \<Longrightarrow> retry nw j token i = []"
  by (simp add: retry.simps [of nw j token i])

lemma retry_DoError:
  "i \<le> maxRetry \<Longrightarrow> Do nw i = DoError \<Longrightarrow>
   retry nw j token i = HttpDo (mkreq j token) # Printf ''do-error'' # retry nw j token (Suc i)"
  by (simp add: retry.simps [of nw j token i])

lemma retry_status:
  assumes "i \<le> maxRetry" "Do nw i = Response s" "\<not> (200 \<le> s \<and> s \<le> 299)"
  shows "retry nw j token i =
     HttpDo (mkreq j token) # BodyClose #
     (if i = maxRetry then [Printf ''librato-status-error''] else []) @ retry nw j token (Suc i)"
proof -
  have "quo s 100 \<noteq> 2" using assms(3) by (simp only: quo_100_eq_2) simp
  then show ?thesis
    using assms(1,2) by (simp add: retry.simps [of nw j token i])
qed

lemma retry_success:
  "i \<le> maxRetry \<Longrightarrow> Do nw i = Response s \<Longrightarrow> 200 \<le> s \<and> s \<le> 299 \<Longrightarrow>
   retry nw j token i = [HttpDo (mkreq j token), BodyClose, Measure ''librato-http-post'']"
  by (simp add: retry.simps [of nw j token i] quo_100_eq_2)

lemma retry_all_failed:
  assumes "\<forall>k. i \<le> k \<and> k \<le> maxRetry \<longrightarrow> failed (Do nw k)" "i \<le> maxRetry"
  shows "requests (retry nw j token i) = replicate (Suc maxRetry - i) (mkreq j token) \<and>
         Measure ''librato-http-post'' \<notin> set (retry nw j token i) \<and>
         retry nw j token i \<noteq> [] \<and>
         last (retry nw j token i) =
           (case Do nw maxRetry of Response s \<Rightarrow> Printf ''librato-status-error''
            | _ \<Rightarrow> Printf ''do-error'')"
  using assms
proof (induction "maxRetry - i" arbitrary: i)
  case 0
  then have i: "i = maxRetry" by simp
  have f: "failed (Do nw maxRetry)" using "0.prems"(1) i by simp
  have past: "retry nw j token (Suc maxRetry) = []" by (simp add: retry_past)
  show ?case
  proof (cases "Do nw maxRetry")
    case RequestError
    then show ?thesis using f by (simp add: failed_def)
  next
    case DoError
    then show ?thesis
      unfolding i by (simp add: retry_DoError past)
  next
    case (Response s)
    then have "\<not> (200 \<le> s \<and> s \<le> 299)" using f by (simp add: failed_def)
    then show ?thesis
      unfolding i using Response by (simp add: retry_status past)
  qed
next
  case (Suc n)
  then have lt: "i < maxRetry" by simp
  have f: "failed (Do nw i)" using Suc.prems by simp
  have IH: "requests (retry nw j token (Suc i)) = replicate (Suc maxRetry - Suc i) (mkreq j token) \<and>
         Measure ''librato-http-post'' \<notin> set (retry nw j token (Suc i)) \<and>
         retry nw j token (Suc i) \<noteq> [] \<and>
         last (retry nw j token (Suc i)) =
           (case Do nw maxRetry of Response s \<Rightarrow> Printf ''librato-status-error''
            | _ \<Rightarrow> Printf ''do-error'')"
    using Suc.hyps(2) Suc.prems lt by (intro Suc.hyps(1)) auto
  have rep: "Suc maxRetry - i = Suc (maxRetry - i)"
    using lt by simp
  show ?case
  proof (cases "Do nw i")
    case RequestError
    then show ?thesis using f by (simp add: failed_def)
  next
    case DoError
    then show ?thesis
      using IH lt by (simp add: retry_DoError rep)
  next
    case (Response s)
    then have "\<not> (200 \<le> s \<and> s \<le> 299)" using f by (simp add: failed_def)
    then show ?thesis
      using IH lt Response by (simp add: retry_status rep)
  qed
qed

lemma post_batch_Cons:
  "post_batch nw (m # ms) =
     TokenGet (Token m) # Printf ''post-metric'' #
     retry nw (render (quote nw) (marshal_LP \<lparr>Gauges = m # ms\<rparr>)) (Token_Get nw (Token m)) 0"
  by (simp add: post_batch_def json_Marshal_def marshal_LP_def)

text \<open>
  The retry loop when each of the six passes fails, and when a pass is answered with a
  status from 200 to 299: six identical requests and no success measured, the trace ending
  on \<open>librato-status-error\<close> when the sixth attempt was answered and on \<open>do-error\<close>
  when it was not; a success ends the loop at once.
\<close>

lemma post_retry_bound:
  "(metrics \<noteq> [] \<and> (\<forall>i \<le> maxRetry. failed (Do nw i)) \<longrightarrow>
      requests (post_batch nw metrics) =
        replicate 6 (mkreq (render (quote nw) (marshal_LP \<lparr>Gauges = metrics\<rparr>))
                           (Token_Get nw (Token (hd metrics)))) \<and>
      Measure ''librato-http-post'' \<notin> set (post_batch nw metrics) \<and>
      last (post_batch nw metrics) =
        (case Do nw maxRetry of Response s \<Rightarrow> Printf ''librato-status-error''
         | _ \<Rightarrow> Printf ''do-error'')) \<and>
   (\<forall>i s j token. i \<le> maxRetry \<and> Do nw i = Response s \<and> 200 \<le> s \<and> s \<le> 299 \<longrightarrow>
      retry nw j token i = [HttpDo (mkreq j token), BodyClose, Measure ''librato-http-post''])"
proof -
  have fail: "requests (post_batch nw metrics) =
        replicate 6 (mkreq (render (quote nw) (marshal_LP \<lparr>Gauges = metrics\<rparr>))
                           (Token_Get nw (Token (hd metrics)))) \<and>
      Measure ''librato-http-post'' \<notin> set (post_batch nw metrics) \<and>
      last (post_batch nw metrics) =
        (case Do nw maxRetry of Response s \<Rightarrow> Printf ''librato-status-error''
         | _ \<Rightarrow> Printf ''do-error'')"
    if ne: "metrics \<noteq> []" and all: "\<forall>i \<le> maxRetry. failed (Do nw i)"
  proof -
    obtain m ms where ms: "metrics = m # ms" using ne by (cases metrics) auto
    let ?j = "render (quote nw) (marshal_LP \<lparr>Gauges = m # ms\<rparr>)"
    let ?tok = "Token_Get nw (Token m)"
    have "\<forall>k. 0 \<le> k \<and> k \<le> maxRetry \<longrightarrow> failed (Do nw k)" using all by simp
    then have r: "requests (retry nw ?j ?tok 0) = replicate (Suc maxRetry - 0) (mkreq ?j ?tok) \<and>
         Measure ''librato-http-post'' \<notin> set (retry nw ?j ?tok 0) \<and>
         retry nw ?j ?tok 0 \<noteq> [] \<and>
         last (retry nw ?j ?tok 0) =
           (case Do nw maxRetry of Response s \<Rightarrow> Printf ''librato-status-error''
            | _ \<Rightarrow> Printf ''do-error'')"
      by (rule retry_all_failed) simp
    have six: "Suc maxRetry - 0 = 6" by (simp add: maxRetry_def)
    show ?thesis
      using r unfolding six ms post_batch_Cons by simp
  qed
  show ?thesis
    using fail retry_success by blast
qed

lemma retry_all_DoError:
  assumes "\<forall>k \<le> maxRetry. Do nw k = DoError" "i \<le> Suc maxRetry"
  shows "retry nw j token i =
     concat (replicate (Suc maxRetry - i) [HttpDo (mkreq j token), Printf ''do-error''])"
  using assms(2)
proof (induction "Suc maxRetry - i" arbitrary: i)
  case 0
  then have "maxRetry < i" by simp
  then show ?case using 0 by (simp add: retry_past)
next
  case (Suc n)
  then have le: "i \<le> maxRetry" by simp
  have d: "Do nw i = DoError" using assms(1) le by simp
  have IH: "retry nw j token (Suc i) =
     concat (replicate (Suc maxRetry - Suc i) [HttpDo (mkreq j token), Printf ''do-error''])"
    using Suc.hyps(2) le by (intro Suc.hyps(1)) auto
  have rep: "Suc maxRetry - i = Suc (Suc maxRetry - Suc i)"
    using le by simp
  show ?case
    unfolding retry_DoError [OF le d] IH by (subst rep) simp
qed

text \<open>
  C5. A batch of one metric, with a transport error on each of the six attempts: the worker
  makes six requests and prints \<open>do-error\<close> after each of them, the line of any failed
  attempt, and nothing after the sixth. The line \<open>librato-status-error\<close>, on which the
  trace ends when the sixth attempt is answered with the status 503, is not printed.
\<close>

theorem post_transport_errors_trace:
  "post_batch net_down [lm_abc] =
     TokenGet ''abc'' # Printf ''post-metric'' #
     concat (replicate 6
       [HttpDo (mkreq (render plain_quote (marshal_LP \<lparr>Gauges = [lm_abc]\<rparr>)) creds0),
        Printf ''do-error'']) \<and>
   length (requests (post_batch net_down [lm_abc])) = 6 \<and>
   Printf ''librato-status-error'' \<notin> set (post_batch net_down [lm_abc]) \<and>
   last (post_batch net_busy [lm_abc]) = Printf ''librato-status-error''"
proof -
  have d: "\<forall>k \<le> maxRetry. Do net_down k = DoError"
    by (simp add: net_down_def)
  have r: "retry net_down j token 0 =
     concat (replicate 6 [HttpDo (mkreq j token), Printf ''do-error''])" for j token
    using retry_all_DoError [OF d, of 0 j token] by (simp add: maxRetry_def)
  have tr: "post_batch net_down [lm_abc] =
     TokenGet ''abc'' # Printf ''post-metric'' #
     concat (replicate 6
       [HttpDo (mkreq (render plain_quote (marshal_LP \<lparr>Gauges = [lm_abc]\<rparr>)) creds0),
        Printf ''do-error''])"
    unfolding post_batch_Cons r
    by (simp add: net_down_def creds0_def lm_abc_def)
  have n: "length (requests (post_batch net_down [lm_abc])) = 6"
    unfolding tr by (simp add: eval_nat_numeral)
  have no: "Printf ''librato-status-error'' \<notin> set (post_batch net_down [lm_abc])"
    unfolding tr by simp
  have b: "[lm_abc] \<noteq> [] \<and> (\<forall>i \<le> maxRetry. failed (Do net_busy i))"
    by (simp add: net_busy_def failed_def)
  have busy: "last (post_batch net_busy [lm_abc]) = Printf ''librato-status-error''"
    using post_retry_bound [of "[lm_abc]" net_busy, THEN conjunct1, THEN mp, OF b,
        THEN conjunct2, THEN conjunct2]
    by (simp add: net_busy_def)
  show ?thesis by (rule conjI [OF tr conjI [OF n conjI [OF no busy]]])
qed

text \<open>
  C9. A batch of no metric is rejected at once: the worker prints the line
  \<open>empty-metrics-error\<close> and does nothing else with it: no credentials are fetched and no
  request is made. Within a run over the outbox, it goes on with the next batch.
\<close>

theorem post_empty_batch:
  "post_batch nw [] = [Printf ''empty-metrics-error''] \<and>
   requests (post_batch nw []) = [] \<and>
   (\<forall>t. TokenGet t \<notin> set (post_batch nw [])) \<and>
   (\<forall>r. HttpDo r \<notin> set (post_batch nw [])) \<and>
   post nw (before @ [[]] @ after) =
     post nw before @ [Printf ''empty-metrics-error''] @ post nw after"
  by (simp add: post_batch_def post_def)

subsection \<open>post: the payload\<close>









subsection \<open>lockPartition\<close>

lemma scan_Some:
  "scan pg mp p0 = Some p \<longleftrightarrow>
     p0 \<le> p \<and> p < mp \<and> locked (pg p) \<and> (\<forall>q. p0 \<le> q \<and> q < p \<longrightarrow> \<not> locked (pg q))"
proof (induction pg mp p0 rule: scan.induct)
  case (1 pg mp p0)
  show ?case
  proof (cases "p0 < mp")
    case False
    then show ?thesis by (auto simp: scan.simps [of pg mp p0])
  next
    case True
    have step: "(\<forall>q. p0 \<le> q \<and> q < p \<longrightarrow> \<not> locked (pg q)) \<longleftrightarrow>
      (p0 < p \<longrightarrow> \<not> locked (pg p0)) \<and> (\<forall>q. p0 + 1 \<le> q \<and> q < p \<longrightarrow> \<not> locked (pg q))"
      by (metis add1_zle_eq order_le_less)
    show ?thesis
    proof (cases "locked (pg p0)")
      case l: True
      then obtain rows where r: "pg p0 = Rows rows" "rows_loop rows"
        by (auto simp: locked_def split: query.splits)
      have "scan pg mp p0 = Some p0"
        using True r by (simp add: scan.simps [of pg mp p0])
      then show ?thesis
        using True l by (auto simp: not_less dest: order_antisym)
    next
      case nl: False
      have "scan pg mp p0 = scan pg mp (p0 + 1)"
        using True nl by (auto simp: scan.simps [of pg mp p0] locked_def split: query.splits)
      moreover have "scan pg mp (p0 + 1) = Some p \<longleftrightarrow>
         p0 + 1 \<le> p \<and> p < mp \<and> locked (pg p) \<and> (\<forall>q. p0 + 1 \<le> q \<and> q < p \<longrightarrow> \<not> locked (pg q))"
      proof (cases "pg p0")
        case QueryError
        then show ?thesis using "1.IH"(1) [OF True QueryError] by simp
      next
        case (Rows rows)
        then have "\<not> rows_loop rows" using nl by (simp add: locked_def)
        then show ?thesis using "1.IH"(2) [OF True Rows] by simp
      qed
      ultimately show ?thesis
        using nl step by (metis add1_zle_eq order_le_less)
    qed
  qed
qed

lemma scan_None:
  "scan pg mp p0 = None \<longleftrightarrow> (\<forall>q. p0 \<le> q \<and> q < mp \<longrightarrow> \<not> locked (pg q))"
proof
  assume n: "scan pg mp p0 = None"
  show "\<forall>q. p0 \<le> q \<and> q < mp \<longrightarrow> \<not> locked (pg q)"
  proof (intro allI impI notI)
    fix q assume q: "p0 \<le> q \<and> q < mp" and l: "locked (pg q)"
    define S where "S = {k. p0 \<le> k \<and> k \<le> q \<and> locked (pg k)}"
    have "q \<in> S" using q l by (simp add: S_def)
    moreover have "finite S"
      by (rule finite_subset [of _ "{p0..q}"]) (auto simp: S_def)
    ultimately have "Min S \<in> S" and mn: "\<forall>k \<in> S. Min S \<le> k"
      by (auto intro: Min_in)
    then have "scan pg mp p0 = Some (Min S)"
      using q unfolding scan_Some S_def by (auto simp: not_le) 
    then show False using n by simp
  qed
next
  assume "\<forall>q. p0 \<le> q \<and> q < mp \<longrightarrow> \<not> locked (pg q)"
  then show "scan pg mp p0 = None"
    by (cases "scan pg mp p0") (auto simp: scan_Some)
qed

lemma lockPartition_loop_Some:
  assumes "lockPartition_loop pg mp n sofar = Some y"
  shows "\<exists>m p. n \<le> m \<and> y = ((p, None), sofar @ replicate (m - n) (Sleep 10) @ [Acquired p]) \<and>
           scan (pg m) mp 0 = Some p \<and> (\<forall>k. n \<le> k \<and> k < m \<longrightarrow> scan (pg k) mp 0 = None)"
proof -
  let ?P = "\<lambda>(pg :: nat \<Rightarrow> int \<Rightarrow> NullBool query) mp (n :: nat) sofar y.
     \<exists>m p. n \<le> m \<and> y = ((p, None), sofar @ replicate (m - n) (Sleep 10) @ [Acquired p]) \<and>
           scan (pg m) mp 0 = Some p \<and> (\<forall>k. n \<le> k \<and> k < m \<longrightarrow> scan (pg k) mp 0 = None)"
  have "?P pg mp n sofar y"
  proof (rule lockPartition_loop.raw_induct [where P = ?P, OF _ assms])
    fix loop :: "(nat \<Rightarrow> int \<Rightarrow> NullBool query) \<Rightarrow> int \<Rightarrow> nat \<Rightarrow> lock_effect list
        \<Rightarrow> ((int \<times> string option) \<times> lock_effect list) option"
      and pg mp n sofar y
    assume IH: "\<And>pg mp n sofar y. loop pg mp n sofar = Some y \<Longrightarrow> ?P pg mp n sofar y"
    assume eq: "(case scan (pg n) mp 0 of
                   None \<Rightarrow> loop pg mp (n + 1) (sofar @ [Sleep 10])
                 | Some p \<Rightarrow> Some ((p, None), sofar @ [Acquired p])) = Some y"
    show "?P pg mp n sofar y"
    proof (cases "scan (pg n) mp 0")
      case None
      then have "loop pg mp (n + 1) (sofar @ [Sleep 10]) = Some y"
        using eq by simp
      from IH [OF this] obtain m p where
        m: "n + 1 \<le> m"
        and y: "y = ((p, None), (sofar @ [Sleep 10]) @ replicate (m - (n + 1)) (Sleep 10) @ [Acquired p])"
        and s: "scan (pg m) mp 0 = Some p"
        and f: "\<forall>k. n + 1 \<le> k \<and> k < m \<longrightarrow> scan (pg k) mp 0 = None"
        by blast
      have rep: "replicate (m - n) (Sleep 10) = Sleep 10 # replicate (m - (n + 1)) (Sleep 10)"
        using m by (cases "m - n") auto
      have before: "\<forall>k. n \<le> k \<and> k < m \<longrightarrow> scan (pg k) mp 0 = None"
      proof (intro allI impI)
        fix k assume k: "n \<le> k \<and> k < m"
        show "scan (pg k) mp 0 = None"
        proof (cases "k = n")
          case True
          then show ?thesis using None by simp
        next
          case False
          then have "n + 1 \<le> k \<and> k < m" using k by simp
          then show ?thesis using f by blast
        qed
      qed
      have le: "n \<le> m" using m by simp
      have y': "y = ((p, None), sofar @ replicate (m - n) (Sleep 10) @ [Acquired p])"
        unfolding y rep by simp
      show ?thesis
        by (rule exI [of _ m], rule exI [of _ p]) (intro conjI le y' s before)
    next
      case (Some p)
      then have y': "y = ((p, None), sofar @ replicate (n - n) (Sleep 10) @ [Acquired p])"
        using eq by simp
      have none: "\<forall>k. n \<le> k \<and> k < n \<longrightarrow> scan (pg k) mp 0 = None"
        by auto
      show ?thesis
        by (rule exI [of _ n], rule exI [of _ p]) (intro conjI order_refl y' Some none)
    qed
  qed
  then show ?thesis .
qed

lemma lockPartition_loop_returns:
  assumes "scan (pg m) mp 0 \<noteq> None" "n \<le> m"
  shows "lockPartition_loop pg mp n sofar \<noteq> None"
  using assms
proof (induction "m - n" arbitrary: n sofar)
  case 0
  then have "n = m" by simp
  then obtain p where "scan (pg n) mp 0 = Some p" using "0.prems"(1) by auto
  then show ?case by (simp add: lockPartition_loop.simps [of pg mp n sofar])
next
  case (Suc d)
  show ?case
  proof (cases "scan (pg n) mp 0")
    case None
    have "lockPartition_loop pg mp (n + 1) (sofar @ [Sleep 10]) \<noteq> None"
      using Suc.hyps(2) Suc.prems by (intro Suc.hyps(1)) auto
    then show ?thesis using None by (simp add: lockPartition_loop.simps [of pg mp n sofar])
  next
    case (Some p)
    then show ?thesis by (simp add: lockPartition_loop.simps [of pg mp n sofar])
  qed
qed

text \<open>
  C8. Whenever \<open>lockPartition\<close> returns, the error is \<open>nil\<close> and the partition is the
  first index, in the ascending scan from 0 below \<open>maxPartitions\<close>, whose lock attempt
  succeeded in the scan that returned; it lies in the range. In every scan before, no
  attempt succeeded, and each of them was followed by a sleep of 10 seconds and a new scan.
  A query that fails counts as a lock not acquired, and the scan goes on with the next
  index. The function returns as soon as some scan has an attempt that succeeds, and never
  when none has: there is no return of an error.
\<close>

theorem lockPartition_first_free:
  "(\<forall>p err trace. lockPartition pg maxPartitions = Some ((p, err), trace) \<longrightarrow>
      err = None \<and> 0 \<le> p \<and> p < maxPartitions \<and>
      (\<exists>n. trace = replicate n (Sleep 10) @ [Acquired p] \<and>
           locked (pg n p) \<and>
           (\<forall>q. 0 \<le> q \<and> q < p \<longrightarrow> \<not> locked (pg n q)) \<and>
           (\<forall>k q. k < n \<and> 0 \<le> q \<and> q < maxPartitions \<longrightarrow> \<not> locked (pg k q)))) \<and>
   (\<forall>n p. p < maxPartitions \<and> pg n p = QueryError \<longrightarrow>
      \<not> locked (pg n p) \<and> scan (pg n) maxPartitions p = scan (pg n) maxPartitions (p + 1)) \<and>
   ((\<exists>n p. 0 \<le> p \<and> p < maxPartitions \<and> locked (pg n p)) \<longleftrightarrow>
      lockPartition pg maxPartitions \<noteq> None)"
proof -
  have ret: "err = None \<and> 0 \<le> p \<and> p < maxPartitions \<and>
      (\<exists>n. trace = replicate n (Sleep 10) @ [Acquired p] \<and>
           locked (pg n p) \<and>
           (\<forall>q. 0 \<le> q \<and> q < p \<longrightarrow> \<not> locked (pg n q)) \<and>
           (\<forall>k q. k < n \<and> 0 \<le> q \<and> q < maxPartitions \<longrightarrow> \<not> locked (pg k q)))"
    if "lockPartition pg maxPartitions = Some ((p, err), trace)" for p err trace
  proof -
    from that have "lockPartition_loop pg maxPartitions 0 [] = Some ((p, err), trace)"
      by (simp add: lockPartition_def)
    from lockPartition_loop_Some [OF this] obtain m p' where
      y: "((p, err), trace) = ((p', None), [] @ replicate (m - 0) (Sleep 10) @ [Acquired p'])"
      and s: "scan (pg m) maxPartitions 0 = Some p'"
      and f: "\<forall>k. 0 \<le> k \<and> k < m \<longrightarrow> scan (pg k) maxPartitions 0 = None"
      by blast
    have e: "p' = p" "err = None" "trace = replicate m (Sleep 10) @ [Acquired p]"
      using y by simp_all
    have s': "0 \<le> p \<and> p < maxPartitions \<and> locked (pg m p) \<and>
         (\<forall>q. 0 \<le> q \<and> q < p \<longrightarrow> \<not> locked (pg m q))"
      using s unfolding e(1) scan_Some by simp
    have "\<forall>k q. k < m \<and> 0 \<le> q \<and> q < maxPartitions \<longrightarrow> \<not> locked (pg k q)"
      using f by (simp add: scan_None)
    then show ?thesis using e s' by blast
  qed
  have qe: "\<not> locked (pg n p) \<and> scan (pg n) maxPartitions p = scan (pg n) maxPartitions (p + 1)"
    if "p < maxPartitions \<and> pg n p = QueryError" for n p
    using that by (simp add: locked_def scan.simps [of "pg n" maxPartitions p])
  have iff: "(\<exists>n p. 0 \<le> p \<and> p < maxPartitions \<and> locked (pg n p)) \<longleftrightarrow>
      lockPartition pg maxPartitions \<noteq> None"
  proof
    assume "\<exists>n p. 0 \<le> p \<and> p < maxPartitions \<and> locked (pg n p)"
    then obtain n where "scan (pg n) maxPartitions 0 \<noteq> None"
      by (auto simp: scan_None)
    then show "lockPartition pg maxPartitions \<noteq> None"
      unfolding lockPartition_def by (rule lockPartition_loop_returns) simp
  next
    assume "lockPartition pg maxPartitions \<noteq> None"
    then obtain p err trace where "lockPartition pg maxPartitions = Some ((p, err), trace)"
      by (cases "lockPartition pg maxPartitions") auto
    from ret [OF this] show "\<exists>n p. 0 \<le> p \<and> p < maxPartitions \<and> locked (pg n p)"
      by blast
  qed
  have r: "\<forall>p err trace. lockPartition pg maxPartitions = Some ((p, err), trace) \<longrightarrow>
      err = None \<and> 0 \<le> p \<and> p < maxPartitions \<and>
      (\<exists>n. trace = replicate n (Sleep 10) @ [Acquired p] \<and>
           locked (pg n p) \<and>
           (\<forall>q. 0 \<le> q \<and> q < p \<longrightarrow> \<not> locked (pg n q)) \<and>
           (\<forall>k q. k < n \<and> 0 \<le> q \<and> q < maxPartitions \<longrightarrow> \<not> locked (pg k q)))"
    by (intro allI impI) (rule ret)
  have q: "\<forall>n p. p < maxPartitions \<and> pg n p = QueryError \<longrightarrow>
      \<not> locked (pg n p) \<and> scan (pg n) maxPartitions p = scan (pg n) maxPartitions (p + 1)"
    by (intro allI impI) (rule qe)
  show ?thesis
    by (rule conjI [OF r conjI [OF q iff]])
qed

lemma lockPartition_loop_None_step:
  "scan (pg n) mp 0 = None \<Longrightarrow>
   lockPartition_loop pg mp n sofar = lockPartition_loop pg mp (Suc n) (sofar @ [Sleep 10])"
  by (simp add: lockPartition_loop.simps [of pg mp n sofar])

lemma lockPartition_loop_Some_step:
  "scan (pg n) mp 0 = Some p \<Longrightarrow>
   lockPartition_loop pg mp n sofar = Some ((p, None), sofar @ [Acquired p])"
  by (simp add: lockPartition_loop.simps [of pg mp n sofar])

theorem lockPartition_first_free_witness:
  "lockPartition pg_sample 3 = Some ((2, None), [Sleep 10, Sleep 10, Acquired 2]) \<and>
   (\<exists>n. [Sleep 10, Sleep 10, Acquired 2] = replicate n (Sleep 10) @ [Acquired 2] \<and>
        locked (pg_sample n 2)) \<and>
   \<not> locked (pg_sample 0 1) \<and>
   scan (pg_sample 0) 3 1 = scan (pg_sample 0) 3 (1 + 1) \<and>
   lockPartition pg_sample 3 \<noteq> None"
proof -
  have s0: "scan (pg_sample 0) 3 0 = None"
    unfolding scan_None by (auto simp: locked_def pg_sample_def)
  have s1: "scan (pg_sample (Suc 0)) 3 0 = None"
    unfolding scan_None by (auto simp: locked_def pg_sample_def)
  have s2: "scan (pg_sample (Suc (Suc 0))) 3 0 = Some 2"
    unfolding scan_Some by (auto simp: locked_def pg_sample_def)
  have run: "lockPartition pg_sample 3 = Some ((2, None), [Sleep 10, Sleep 10, Acquired 2])"
    unfolding lockPartition_def
    by (simp add: lockPartition_loop_None_step [of pg_sample 0, OF s0]
        lockPartition_loop_None_step [of pg_sample "Suc 0", OF s1]
        lockPartition_loop_Some_step [of pg_sample "Suc (Suc 0)", OF s2])
  note t = lockPartition_first_free [of pg_sample 3]
  note r = t [THEN conjunct1, THEN spec, THEN spec, THEN spec, THEN mp, OF run]
  have a: "\<exists>n. [Sleep 10, Sleep 10, Acquired 2] = replicate n (Sleep 10) @ [Acquired 2] \<and>
        locked (pg_sample n 2)"
    using r by blast
  have qe: "(1::int) < 3 \<and> pg_sample 0 1 = QueryError"
    by (simp add: pg_sample_def)
  note q = t [THEN conjunct2, THEN conjunct1, THEN spec, THEN spec, THEN mp, OF qe]
  have free: "\<exists>n p. 0 \<le> p \<and> p < 3 \<and> locked (pg_sample n p)"
    by (rule exI [of _ 2], rule exI [of _ 2]) (simp add: locked_def pg_sample_def)
  have ret: "lockPartition pg_sample 3 \<noteq> None"
    using t [THEN conjunct2, THEN conjunct2] free by (rule iffD1)
  show ?thesis
    by (rule conjI [OF run conjI [OF a conjI [OF q [THEN conjunct1] conjI [OF q [THEN conjunct2] ret]]]])
qed

subsection \<open>scheduleFetch: the window and the buckets enqueued\<close>








end
